theory Spec2Isabelle
  imports Main "HOL-Library.Word"
begin

unbundle bit_operations_syntax

section \<open>Data model\<close>

text \<open>
  The library works on spans of octets.  A read-only span is a list of 8-bit words; a
  writable span is a list as well, and a store through an iterator at offset \<open>p\<close> is a
  list update at index \<open>p\<close>.  \<open>std::uint16_t\<close> and \<open>std::uint32_t\<close> are 16-bit and
  32-bit words, so shifts drop the bits that leave the word and additions wrap.
  \<open>std::size_t\<close> is taken to be 64 bits wide; span sizes are natural numbers and the
  wrap-around of the size computations is written out with \<open>mod\<close>.
\<close>

type_synonym octet = "8 word"
type_synonym uint16 = "16 word"
type_synonym uint32 = "32 word"
type_synonym size_t = "64 word"

subsection \<open>unicode\_constants.h\<close>

definition Maximum_Character_Value :: uint32 where
  "Maximum_Character_Value = 0x10ffff"

definition Maximum_BMP_Value :: uint32 where
  "Maximum_BMP_Value = 0xffff"

definition Surrogate_High_Min :: uint32 where
  "Surrogate_High_Min = 0xd800"

definition Surrogate_High_Max :: uint32 where
  "Surrogate_High_Max = 0xdbff"

definition Surrogate_Low_Min :: uint32 where
  "Surrogate_Low_Min = 0xdc00"

definition Surrogate_Low_Max :: uint32 where
  "Surrogate_Low_Max = 0xdfff"

definition Lead_Offset :: uint32 where
  "Lead_Offset = 0xd800 - drop_bit 10 0x10000"

definition Surrogate_Offset :: uint32 where
  "Surrogate_Offset = 0xfca02400"

subsection \<open>character\_utilities.h\<close>

text \<open>
  \<open>Max_UTF16_String\<close> is the header's expression over \<open>std::size_t\<close>, for a size type
  of \<open>LENGTH('a)\<close> bits: \<open>numeric_limits<size_t>::max()\<close> is the word \<open>- 1\<close> and
  \<open>(sizeof(std::size_t) * CHAR_BIT) >> 1\<close> is \<open>LENGTH('a) div 2\<close>.
\<close>

definition Max_UTF16_String :: "'a::len word" where
  "Max_UTF16_String =
     push_bit (LENGTH('a) div 2)
       (push_bit 1 (drop_bit (LENGTH('a) div 2) (- 1 :: 'a word)) div 3)
     OR (push_bit 1 (drop_bit (LENGTH('a) div 2) (- 1 :: 'a word)) div 3)"

definition SIZE_MAX :: nat where
  "SIZE_MAX = unat (- 1 :: size_t)"

subsection \<open>Results\<close>

text \<open>
  Every \<open>return {false, 0}\<close> of the two converters is one constructor of \<open>failure\<close>, in
  the order of the source; \<open>Read_Past_End\<close> stands for an iteration of the UTF-16
  loop that would read two octets where fewer than two are left, which the source does
  not check inside the loop.  \<open>result_pair\<close> forgets the tag and gives the pair the
  source returns.
\<close>

datatype failure =
    Buffer_Too_Small
  | Bad_Continuation
  | Above_Maximum
  | Surrogate_Codepoint
  | Bad_Lead
  | Truncated_Sequence
  | Odd_Length
  | Too_Long
  | Lone_Low_Surrogate
  | Truncated_Pair
  | Bad_Low_Surrogate
  | Codepoint_Out_Of_Range
  | Read_Past_End

fun result_pair :: "(failure + nat) \<times> octet list \<Rightarrow> (bool \<times> nat) \<times> octet list" where
  "result_pair (Inl e, out) = ((False, 0), out)"
| "result_pair (Inr n, out) = ((True, n), out)"

section \<open>utf8\_to\_utf16.cpp\<close>

definition InsertUTF16LE :: "uint16 \<Rightarrow> nat \<Rightarrow> octet list \<Rightarrow> octet list" where
  "InsertUTF16LE character p buffer =
     buffer[p := ucast (character AND 0xff),
            Suc p := ucast (drop_bit 8 character AND 0xff)]"

definition InsertUTF16BE :: "uint16 \<Rightarrow> nat \<Rightarrow> octet list \<Rightarrow> octet list" where
  "InsertUTF16BE character p buffer =
     buffer[p := ucast (drop_bit 8 character AND 0xff),
            Suc p := ucast (character AND 0xff)]"

definition InsertUTF16 :: "bool \<Rightarrow> uint16 \<Rightarrow> nat \<Rightarrow> octet list \<Rightarrow> octet list" where
  "InsertUTF16 little_endian character p buffer =
     (if little_endian then InsertUTF16LE character p buffer
      else InsertUTF16BE character p buffer)"

text \<open>
  The body of the \<open>for\<close> loop of \<open>ConvertUTF8ToUTF16\<close>, one octet per call.  The
  state is \<open>expected_utf8_remaining\<close>, \<open>wide_character\<close>, the offset \<open>p\<close> of the output
  iterator and the output buffer.
\<close>

fun ConvertUTF8ToUTF16_loop ::
  "bool \<Rightarrow> octet list \<Rightarrow> nat \<Rightarrow> uint32 \<Rightarrow> nat \<Rightarrow> octet list
     \<Rightarrow> (failure + nat) \<times> octet list" where
  "ConvertUTF8ToUTF16_loop little_endian [] remaining wide p out =
     (if remaining > 0 then (Inl Truncated_Sequence, out) else (Inr p, out))"
| "ConvertUTF8ToUTF16_loop little_endian (octet # rest) remaining wide p out =
     (if remaining > 0 then
        (if octet AND 0xc0 \<noteq> 0x80 then (Inl Bad_Continuation, out)
         else
           let wide' = push_bit 6 wide OR ucast (octet AND 0x3f) in
           if remaining - 1 = 0 then
             (if wide' > Maximum_Character_Value then (Inl Above_Maximum, out)
              else if wide' \<ge> Surrogate_High_Min \<and> wide' \<le> Surrogate_Low_Max
                then (Inl Surrogate_Codepoint, out)
              else if wide' > Maximum_BMP_Value then
                ConvertUTF8ToUTF16_loop little_endian rest 0 wide' (p + 4)
                  (InsertUTF16 little_endian
                     (ucast (Surrogate_Low_Min + (wide' AND 0x3ff))) (p + 2)
                     (InsertUTF16 little_endian
                        (ucast (Lead_Offset + drop_bit 10 wide')) p out))
              else
                ConvertUTF8ToUTF16_loop little_endian rest 0 wide' (p + 2)
                  (InsertUTF16 little_endian (ucast wide') p out))
           else ConvertUTF8ToUTF16_loop little_endian rest (remaining - 1) wide' p out)
      else if octet \<le> 0x7f then
        ConvertUTF8ToUTF16_loop little_endian rest remaining wide (p + 2)
          (InsertUTF16 little_endian (ucast octet) p out)
      else if octet AND 0xe0 = 0xc0 then
        ConvertUTF8ToUTF16_loop little_endian rest 1 (ucast (octet AND 0x3f)) p out
      else if octet AND 0xf0 = 0xe0 then
        ConvertUTF8ToUTF16_loop little_endian rest 2 (ucast (octet AND 0x0f)) p out
      else if octet AND 0xf8 = 0xf0 then
        ConvertUTF8ToUTF16_loop little_endian rest 3 (ucast (octet AND 0x07)) p out
      else (Inl Bad_Lead, out))"

definition ConvertUTF8ToUTF16_body ::
  "octet list \<Rightarrow> octet list \<Rightarrow> bool \<Rightarrow> (failure + nat) \<times> octet list" where
  "ConvertUTF8ToUTF16_body inp out little_endian =
     (if inp = [] then (Inr 0, out)
      else if length out < (length inp * 2) mod 2 ^ 64 then (Inl Buffer_Too_Small, out)
      else ConvertUTF8ToUTF16_loop little_endian inp 0 0 0 out)"

definition ConvertUTF8ToUTF16 ::
  "octet list \<Rightarrow> octet list \<Rightarrow> bool \<Rightarrow> (bool \<times> nat) \<times> octet list" where
  "ConvertUTF8ToUTF16 inp out little_endian =
     result_pair (ConvertUTF8ToUTF16_body inp out little_endian)"

section \<open>is\_valid\_utf8.cpp\<close>

fun IsUTF8Valid_loop :: "octet list \<Rightarrow> nat \<Rightarrow> uint32 \<Rightarrow> bool" where
  "IsUTF8Valid_loop [] remaining wide = (remaining = 0)"
| "IsUTF8Valid_loop (octet # rest) remaining wide =
     (if octet = 0xc0 \<or> octet = 0xc1 then False
      else if octet \<ge> 0xF5 then False
      else if remaining > 0 then
        (if octet AND 0xc0 \<noteq> 0x80 then False
         else
           let wide' = push_bit 6 wide OR ucast (octet AND 0x3f) in
           if remaining - 1 = 0 then
             (if wide' > Maximum_Character_Value then False
              else if wide' \<ge> Surrogate_High_Min \<and> wide' \<le> Surrogate_Low_Max
                then False
              else IsUTF8Valid_loop rest (remaining - 1) wide')
           else IsUTF8Valid_loop rest (remaining - 1) wide')
      else if octet \<le> 0x7f then IsUTF8Valid_loop rest remaining wide
      else if octet AND 0xe0 = 0xc0 then
        IsUTF8Valid_loop rest 1 (ucast (octet AND 0x3f))
      else if octet AND 0xf0 = 0xe0 then
        IsUTF8Valid_loop rest 2 (ucast (octet AND 0x0f))
      else if octet AND 0xf8 = 0xf0 then
        IsUTF8Valid_loop rest 3 (ucast (octet AND 0x07))
      else False)"

definition IsUTF8Valid :: "octet list \<Rightarrow> bool" where
  "IsUTF8Valid octets = (if octets = [] then True else IsUTF8Valid_loop octets 0 0)"

section \<open>utf16\_to\_utf8.cpp\<close>

definition ExtractUTF16LE :: "octet \<Rightarrow> octet \<Rightarrow> uint16" where
  "ExtractUTF16LE b0 b1 = push_bit 8 (ucast b1) OR ucast b0"

definition ExtractUTF16BE :: "octet \<Rightarrow> octet \<Rightarrow> uint16" where
  "ExtractUTF16BE b0 b1 = push_bit 8 (ucast b0) OR ucast b1"

definition ExtractUTF16 :: "bool \<Rightarrow> octet \<Rightarrow> octet \<Rightarrow> uint16" where
  "ExtractUTF16 little_endian b0 b1 =
     (if little_endian then ExtractUTF16LE b0 b1 else ExtractUTF16BE b0 b1)"

text \<open>
  The check for a byte order mark at the start of the input: the value of
  \<open>little_endian\<close> after it.
\<close>

definition detect_BOM :: "octet list \<Rightarrow> bool \<Rightarrow> bool" where
  "detect_BOM inp little_endian =
     (if length inp \<ge> 4 then
        (if inp ! 0 = 0xFE \<and> inp ! 1 = 0xFF then False
         else if inp ! 0 = 0xFF \<and> inp ! 1 = 0xFE then True
         else little_endian)
      else little_endian)"

text \<open>
  The value of \<open>character\<close> after a surrogate pair has been read:
  \<open>(character << 10) + low_surrogate + Unicode::Surrogate_Offset\<close>, in \<open>std::uint32_t\<close>.
\<close>

definition combine_surrogates :: "uint32 \<Rightarrow> uint16 \<Rightarrow> uint32" where
  "combine_surrogates character low_surrogate =
     push_bit 10 character + ucast low_surrogate + Surrogate_Offset"

text \<open>
  The tail of the loop body, which stores the UTF-8 octets of \<open>character\<close> through \<open>r\<close>:
  the new offset and buffer, or \<open>None\<close> where the source falls through all four tests to
  its last \<open>return {false, 0}\<close>.
\<close>

definition encode_UTF8 :: "uint32 \<Rightarrow> nat \<Rightarrow> octet list \<Rightarrow> (nat \<times> octet list) option" where
  "encode_UTF8 character r out =
     (if character \<le> 0x7f then
        Some (r + 1, out[r := ucast (character AND 0x7f)])
      else if character \<le> 0x7ff then
        Some (r + 2,
          out[r := ucast (0xc0 OR (drop_bit 6 character AND 0x1f)),
              r + 1 := ucast (0x80 OR (character AND 0x3f))])
      else if character \<le> 0xffff then
        Some (r + 3,
          out[r := ucast (0xe0 OR (drop_bit 12 character AND 0x0f)),
              r + 1 := ucast (0x80 OR (drop_bit 6 character AND 0x3f)),
              r + 2 := ucast (0x80 OR (character AND 0x3f))])
      else if character \<le> 0x10ffff then
        Some (r + 4,
          out[r := ucast (0xf0 OR (drop_bit 18 character AND 0x07)),
              r + 1 := ucast (0x80 OR (drop_bit 12 character AND 0x3f)),
              r + 2 := ucast (0x80 OR (drop_bit 6 character AND 0x3f)),
              r + 3 := ucast (0x80 OR (character AND 0x3f))])
      else None)"

text \<open>
  The \<open>while (p != q)\<close> loop.  The input iterator is the list of octets not yet read;
  one call is one iteration, which reads one code unit or a surrogate pair.
\<close>

fun ConvertUTF16ToUTF8_loop ::
  "bool \<Rightarrow> octet list \<Rightarrow> nat \<Rightarrow> octet list \<Rightarrow> (failure + nat) \<times> octet list" where
  "ConvertUTF16ToUTF8_loop little_endian [] r out = (Inr r, out)"
| "ConvertUTF16ToUTF8_loop little_endian [b0] r out = (Inl Read_Past_End, out)"
| "ConvertUTF16ToUTF8_loop little_endian (b0 # b1 # rest) r out =
     (let character = ucast (ExtractUTF16 little_endian b0 b1) :: uint32 in
      if character \<ge> Surrogate_High_Min \<and> character \<le> Surrogate_Low_Max then
        (if character \<ge> Surrogate_Low_Min \<and> character \<le> Surrogate_Low_Max
           then (Inl Lone_Low_Surrogate, out)
         else
           (case rest of
              [] \<Rightarrow> (Inl Truncated_Pair, out)
            | [c0] \<Rightarrow> (Inl Read_Past_End, out)
            | c0 # c1 # rest' \<Rightarrow>
                let low_surrogate = ExtractUTF16 little_endian c0 c1 in
                if ucast low_surrogate < Surrogate_Low_Min
                   \<or> ucast low_surrogate > Surrogate_Low_Max
                  then (Inl Bad_Low_Surrogate, out)
                else
                  (case encode_UTF8 (combine_surrogates character low_surrogate) r out of
                     None \<Rightarrow> (Inl Codepoint_Out_Of_Range, out)
                   | Some (r', out') \<Rightarrow>
                       ConvertUTF16ToUTF8_loop little_endian rest' r' out')))
      else
        (case encode_UTF8 character r out of
           None \<Rightarrow> (Inl Codepoint_Out_Of_Range, out)
         | Some (r', out') \<Rightarrow> ConvertUTF16ToUTF8_loop little_endian rest r' out'))"

definition ConvertUTF16ToUTF8_body ::
  "octet list \<Rightarrow> octet list \<Rightarrow> bool \<Rightarrow> (failure + nat) \<times> octet list" where
  "ConvertUTF16ToUTF8_body inp out little_endian =
     (if length inp = 0 then (Inr 0, out)
      else if odd (length inp) then (Inl Odd_Length, out)
      else if length inp > unat (Max_UTF16_String :: size_t) then (Inl Too_Long, out)
      else if length out < (length inp + length inp div 2) mod 2 ^ 64
        then (Inl Buffer_Too_Small, out)
      else ConvertUTF16ToUTF8_loop (detect_BOM inp little_endian) inp 0 out)"

definition ConvertUTF16ToUTF8 ::
  "octet list \<Rightarrow> octet list \<Rightarrow> bool \<Rightarrow> (bool \<times> nat) \<times> octet list" where
  "ConvertUTF16ToUTF8 inp out little_endian =
     result_pair (ConvertUTF16ToUTF8_body inp out little_endian)"

section \<open>Derived notions\<close>

text \<open>
  The definitions of this section are not functions of the library.  They name what the
  loops compute, so that the theorems can speak about the octets written and about code
  units.
\<close>

text \<open>
  \<open>store p bs out\<close> is the buffer after the octets \<open>bs\<close> have been stored through an
  iterator that starts at offset \<open>p\<close> and moves forward by one after each store.
\<close>

fun store :: "nat \<Rightarrow> 'a list \<Rightarrow> 'a list \<Rightarrow> 'a list" where
  "store p [] out = out"
| "store p (b # bs) out = store (Suc p) bs (out[p := b])"

text \<open>The octets that \<open>encode_UTF8\<close> stores for a character, in order.\<close>

definition utf8_octets :: "uint32 \<Rightarrow> octet list" where
  "utf8_octets character =
     (if character \<le> 0x7f then [ucast (character AND 0x7f)]
      else if character \<le> 0x7ff then
        [ucast (0xc0 OR (drop_bit 6 character AND 0x1f)),
         ucast (0x80 OR (character AND 0x3f))]
      else if character \<le> 0xffff then
        [ucast (0xe0 OR (drop_bit 12 character AND 0x0f)),
         ucast (0x80 OR (drop_bit 6 character AND 0x3f)),
         ucast (0x80 OR (character AND 0x3f))]
      else if character \<le> 0x10ffff then
        [ucast (0xf0 OR (drop_bit 18 character AND 0x07)),
         ucast (0x80 OR (drop_bit 12 character AND 0x3f)),
         ucast (0x80 OR (drop_bit 6 character AND 0x3f)),
         ucast (0x80 OR (character AND 0x3f))]
      else [])"

text \<open>
  The first half of one iteration of the \<open>while\<close> loop of \<open>ConvertUTF16ToUTF8\<close>: the
  value of \<open>character\<close> when the iteration reaches the UTF-8 encoding step, with the
  input that is left, or the failure the iteration returns before that step.
\<close>

fun next_character :: "bool \<Rightarrow> octet list \<Rightarrow> failure + (uint32 \<times> octet list)" where
  "next_character little_endian (b0 # b1 # rest) =
     (let character = ucast (ExtractUTF16 little_endian b0 b1) :: uint32 in
      if character \<ge> Surrogate_High_Min \<and> character \<le> Surrogate_Low_Max then
        (if character \<ge> Surrogate_Low_Min \<and> character \<le> Surrogate_Low_Max
           then Inl Lone_Low_Surrogate
         else
           (case rest of
              [] \<Rightarrow> Inl Truncated_Pair
            | [c0] \<Rightarrow> Inl Read_Past_End
            | c0 # c1 # rest' \<Rightarrow>
                let low_surrogate = ExtractUTF16 little_endian c0 c1 in
                if ucast low_surrogate < Surrogate_Low_Min
                   \<or> ucast low_surrogate > Surrogate_Low_Max
                  then Inl Bad_Low_Surrogate
                else Inr (combine_surrogates character low_surrogate, rest')))
      else Inr (character, rest))"
| "next_character little_endian _ = Inl Read_Past_End"

text \<open>
  The octets that the \<open>while\<close> loop of \<open>ConvertUTF16ToUTF8\<close> writes for an input, or
  the failure it returns.
\<close>

fun utf8_of_utf16 :: "bool \<Rightarrow> octet list \<Rightarrow> failure + octet list" where
  "utf8_of_utf16 little_endian [] = Inr []"
| "utf8_of_utf16 little_endian [b0] = Inl Read_Past_End"
| "utf8_of_utf16 little_endian (b0 # b1 # rest) =
     (let character = ucast (ExtractUTF16 little_endian b0 b1) :: uint32 in
      if character \<ge> Surrogate_High_Min \<and> character \<le> Surrogate_Low_Max then
        (if character \<ge> Surrogate_Low_Min \<and> character \<le> Surrogate_Low_Max
           then Inl Lone_Low_Surrogate
         else
           (case rest of
              [] \<Rightarrow> Inl Truncated_Pair
            | [c0] \<Rightarrow> Inl Read_Past_End
            | c0 # c1 # rest' \<Rightarrow>
                let low_surrogate = ExtractUTF16 little_endian c0 c1 in
                if ucast low_surrogate < Surrogate_Low_Min
                   \<or> ucast low_surrogate > Surrogate_Low_Max
                  then Inl Bad_Low_Surrogate
                else
                  (case utf8_of_utf16 little_endian rest' of
                     Inl e \<Rightarrow> Inl e
                   | Inr bs \<Rightarrow>
                       Inr (utf8_octets (combine_surrogates character low_surrogate) @ bs))))
      else
        (case utf8_of_utf16 little_endian rest of
           Inl e \<Rightarrow> Inl e
         | Inr bs \<Rightarrow> Inr (utf8_octets character @ bs)))"

text \<open>
  The 16-bit code units of a UTF-16 octet sequence in a byte order, and the two
  surrogate ranges.  \<open>surrogates_paired\<close> holds of a sequence of code units in which every
  high surrogate is followed at once by a low surrogate and no low surrogate stands
  elsewhere.
\<close>

fun code_units :: "bool \<Rightarrow> octet list \<Rightarrow> uint16 list" where
  "code_units little_endian (b0 # b1 # rest) =
     ExtractUTF16 little_endian b0 b1 # code_units little_endian rest"
| "code_units little_endian _ = []"

definition is_high_surrogate :: "uint16 \<Rightarrow> bool" where
  "is_high_surrogate u \<longleftrightarrow> 0xD800 \<le> u \<and> u \<le> 0xDBFF"

definition is_low_surrogate :: "uint16 \<Rightarrow> bool" where
  "is_low_surrogate u \<longleftrightarrow> 0xDC00 \<le> u \<and> u \<le> 0xDFFF"

fun surrogates_paired :: "uint16 list \<Rightarrow> bool" where
  "surrogates_paired [] = True"
| "surrogates_paired (u # us) =
     (if is_low_surrogate u then False
      else if is_high_surrogate u then
        (case us of [] \<Rightarrow> False | l # us' \<Rightarrow> is_low_surrogate l \<and> surrogates_paired us')
      else surrogates_paired us)"

text \<open>
  The two octets that \<open>InsertUTF16LE\<close> or \<open>InsertUTF16BE\<close> stores for a code unit, and the
  octets that the \<open>for\<close> loop of \<open>ConvertUTF8ToUTF16\<close> writes for an input from a state
  of the decoder, or the failure it returns.
\<close>

definition utf16_octets :: "bool \<Rightarrow> uint16 \<Rightarrow> octet list" where
  "utf16_octets little_endian character =
     (if little_endian
      then [ucast (character AND 0xff), ucast (drop_bit 8 character AND 0xff)]
      else [ucast (drop_bit 8 character AND 0xff), ucast (character AND 0xff)])"

fun utf16_of_utf8 :: "bool \<Rightarrow> octet list \<Rightarrow> nat \<Rightarrow> uint32 \<Rightarrow> failure + octet list" where
  "utf16_of_utf8 little_endian [] remaining wide =
     (if remaining > 0 then Inl Truncated_Sequence else Inr [])"
| "utf16_of_utf8 little_endian (octet # rest) remaining wide =
     (if remaining > 0 then
        (if octet AND 0xc0 \<noteq> 0x80 then Inl Bad_Continuation
         else
           let wide' = push_bit 6 wide OR ucast (octet AND 0x3f) in
           if remaining - 1 = 0 then
             (if wide' > Maximum_Character_Value then Inl Above_Maximum
              else if wide' \<ge> Surrogate_High_Min \<and> wide' \<le> Surrogate_Low_Max
                then Inl Surrogate_Codepoint
              else if wide' > Maximum_BMP_Value then
                (case utf16_of_utf8 little_endian rest 0 wide' of
                   Inl e \<Rightarrow> Inl e
                 | Inr bs \<Rightarrow>
                     Inr (utf16_octets little_endian (ucast (Lead_Offset + drop_bit 10 wide'))
                          @ utf16_octets little_endian
                              (ucast (Surrogate_Low_Min + (wide' AND 0x3ff)))
                          @ bs))
              else
                (case utf16_of_utf8 little_endian rest 0 wide' of
                   Inl e \<Rightarrow> Inl e
                 | Inr bs \<Rightarrow> Inr (utf16_octets little_endian (ucast wide') @ bs)))
           else utf16_of_utf8 little_endian rest (remaining - 1) wide')
      else if octet \<le> 0x7f then
        (case utf16_of_utf8 little_endian rest remaining wide of
           Inl e \<Rightarrow> Inl e
         | Inr bs \<Rightarrow> Inr (utf16_octets little_endian (ucast octet) @ bs))
      else if octet AND 0xe0 = 0xc0 then
        utf16_of_utf8 little_endian rest 1 (ucast (octet AND 0x3f))
      else if octet AND 0xf0 = 0xe0 then
        utf16_of_utf8 little_endian rest 2 (ucast (octet AND 0x0f))
      else if octet AND 0xf8 = 0xf0 then
        utf16_of_utf8 little_endian rest 3 (ucast (octet AND 0x07))
      else Inl Bad_Lead)"


section \<open>Unfolding the definitions\<close>

lemmas constants_defs =
  Maximum_Character_Value_def Maximum_BMP_Value_def Surrogate_High_Min_def
  Surrogate_High_Max_def Surrogate_Low_Min_def Surrogate_Low_Max_def Lead_Offset_def
  Surrogate_Offset_def

lemmas converter_defs =
  ConvertUTF8ToUTF16_def ConvertUTF8ToUTF16_body_def ConvertUTF16ToUTF8_def
  ConvertUTF16ToUTF8_body_def IsUTF8Valid_def InsertUTF16_def InsertUTF16LE_def
  InsertUTF16BE_def ExtractUTF16_def ExtractUTF16LE_def ExtractUTF16BE_def detect_BOM_def
  combine_surrogates_def encode_UTF8_def

lemma Max_UTF16_String_64: "unat (Max_UTF16_String :: size_t) = 12297829382473034410"
  by (simp add: Max_UTF16_String_def mask_eq_exp_minus_1)

lemma SIZE_MAX_eq: "SIZE_MAX = 18446744073709551615"
  by (simp add: SIZE_MAX_def unsigned_minus_1_eq_mask mask_eq_exp_minus_1)

section \<open>Surrogate pairs\<close>

lemma combine_surrogates_unat:
  fixes u :: uint32 and low :: uint16
  assumes "0xD800 \<le> u" "u \<le> 0xDBFF" "0xDC00 \<le> low" "low \<le> 0xDFFF"
  shows "unat (combine_surrogates u low)
           = 0x10000 + (unat u - 0xD800) * 1024 + (unat low - 0xDC00)"
proof -
  have bounds: "55296 \<le> unat u" "unat u \<le> 56319" "56320 \<le> unat low" "unat low \<le> 57343"
    using assms by (simp_all add: word_le_nat_alt)
  define k where "k = 65536 + (unat u - 55296) * 1024 + (unat low - 56320)"
  have "unat u * 1024 + unat low + 4238353408 = 4294967296 + k"
    unfolding k_def using bounds by arith
  moreover have "k < 4294967296"
    unfolding k_def using bounds by arith
  ultimately have "(unat u * 1024 + unat low + 4238353408) mod 4294967296 = k"
    by (simp only: mod_add_self1 mod_less)
  then have "(unat u * 1024 + unat low + 4238353408) mod 4294967296
               = 65536 + (unat u - 55296) * 1024 + (unat low - 56320)"
    by (simp only: k_def)
  moreover have "unat (ucast low :: uint32) = unat low"
    using bounds by (simp add: unsigned_ucast_eq take_bit_nat_eq_self)
  ultimately show ?thesis
    by (simp add: combine_surrogates_def Surrogate_Offset_def unat_word_ariths
        push_bit_eq_mult mod_simps)
qed

text \<open>
  C6.  For a high surrogate \<open>u\<close> in 0xD800..0xDBFF and a low surrogate \<open>low\<close> in
  0xDC00..0xDFFF, the value the source computes as
  \<open>(u << 10) + low + 0xFCA02400\<close> in 32-bit modular arithmetic is, read as a number,
  \<open>0x10000 + ((u - 0xD800) << 10) + (low - 0xDC00)\<close>, and it lies in
  0x10000..0x10FFFF.
\<close>

theorem surrogate_combination:
  fixes u :: uint32 and low :: uint16
  assumes "0xD800 \<le> u" "u \<le> 0xDBFF" "0xDC00 \<le> low" "low \<le> 0xDFFF"
  shows "combine_surrogates u low = push_bit 10 u + ucast low + 0xFCA02400
         \<and> unat (combine_surrogates u low)
             = 0x10000 + (unat u - 0xD800) * 2 ^ 10 + (unat low - 0xDC00)
         \<and> 0x10000 \<le> unat (combine_surrogates u low)
         \<and> unat (combine_surrogates u low) \<le> 0x10FFFF"
proof -
  have bounds: "55296 \<le> unat u" "unat u \<le> 56319" "56320 \<le> unat low" "unat low \<le> 57343"
    using assms by (simp_all add: word_le_nat_alt)
  have eq: "unat (combine_surrogates u low)
              = 0x10000 + (unat u - 0xD800) * 1024 + (unat low - 0xDC00)"
    using assms by (rule combine_surrogates_unat)
  have "combine_surrogates u low = push_bit 10 u + ucast low + 0xFCA02400"
    by (simp add: combine_surrogates_def Surrogate_Offset_def)
  moreover have "0x10000 \<le> unat (combine_surrogates u low)"
    unfolding eq by simp
  moreover have "unat (combine_surrogates u low) \<le> 0x10FFFF"
    unfolding eq using bounds by arith
  ultimately show ?thesis
    using eq by simp
qed

theorem surrogate_combination_witness:
  "(0xD800 :: uint32) \<le> 0xD83D \<and> (0xD83D :: uint32) \<le> 0xDBFF
   \<and> (0xDC00 :: uint16) \<le> 0xDE00 \<and> (0xDE00 :: uint16) \<le> 0xDFFF
   \<and> unat (combine_surrogates 0xD83D 0xDE00) = 0x1F600"
  using surrogate_combination [of "0xD83D" "0xDE00"] by simp

section \<open>The length ceiling\<close>

text \<open>
  C7.  \<open>Max_UTF16_String\<close>, computed by the header's shifts over a 64-bit (and likewise a
  32-bit) size type, is the integer part of \<open>SIZE_MAX / 1.5\<close>, that is of
  \<open>2 * SIZE_MAX / 3\<close>; and \<open>ConvertUTF16ToUTF8\<close> returns failure with length 0 for every
  input longer than that.
\<close>

theorem Max_UTF16_String_ceiling:
  "unat (Max_UTF16_String :: size_t) = (2 * SIZE_MAX) div 3
   \<and> unat (Max_UTF16_String :: 32 word) = (2 * (2 ^ 32 - 1)) div 3
   \<and> (\<forall>inp out little_endian.
         length inp > unat (Max_UTF16_String :: size_t)
           \<longrightarrow> fst (ConvertUTF16ToUTF8 inp out little_endian) = (False, 0))"
proof -
  have "unat (Max_UTF16_String :: size_t) = (2 * SIZE_MAX) div 3"
    by (simp add: Max_UTF16_String_64 SIZE_MAX_eq)
  moreover have "unat (Max_UTF16_String :: 32 word) = (2 * (2 ^ 32 - 1)) div 3"
    by (simp add: Max_UTF16_String_def mask_eq_exp_minus_1)
  moreover have "fst (ConvertUTF16ToUTF8 inp out little_endian) = (False, 0)"
    if "length inp > unat (Max_UTF16_String :: size_t)"
    for inp out little_endian
    using that by (auto simp: ConvertUTF16ToUTF8_def ConvertUTF16ToUTF8_body_def)
  ultimately show ?thesis
    by blast
qed

theorem Max_UTF16_String_ceiling_witness:
  "length (replicate 12297829382473034412 (0 :: octet)) > unat (Max_UTF16_String :: size_t)
   \<and> fst (ConvertUTF16ToUTF8 (replicate 12297829382473034412 0) [] True) = (False, 0)"
proof -
  have len: "length (replicate 12297829382473034412 (0 :: octet))
               > unat (Max_UTF16_String :: size_t)"
    by (simp add: Max_UTF16_String_64)
  with Max_UTF16_String_ceiling show ?thesis
    by blast
qed

section \<open>Empty input\<close>

text \<open>
  C10.  For the empty input both converters return success with byte count 0 whatever
  the output buffer is, the empty one included, and leave the buffer as it was: the
  test for empty input comes before the capacity, parity and ceiling tests.
\<close>

theorem empty_input_succeeds:
  "ConvertUTF8ToUTF16 [] out little_endian = ((True, 0), out)
   \<and> ConvertUTF16ToUTF8 [] out little_endian = ((True, 0), out)"
  by (simp add: ConvertUTF8ToUTF16_def ConvertUTF8ToUTF16_body_def
      ConvertUTF16ToUTF8_def ConvertUTF16ToUTF8_body_def)

section \<open>Stores through an iterator\<close>

lemma length_store [simp]: "length (store p bs out) = length out"
  by (induction bs arbitrary: p out) simp_all

lemma store_append: "store p (as @ bs) out = store (p + length as) bs (store p as out)"
  by (induction as arbitrary: p out) simp_all

lemma take_store_below: "n \<le> p \<Longrightarrow> take n (store p bs out) = take n out"
  by (induction bs arbitrary: p out) simp_all

lemma take_store:
  "p + length bs \<le> length out \<Longrightarrow> take (p + length bs) (store p bs out) = take p out @ bs"
proof (induction bs arbitrary: p out)
  case Nil
  then show ?case by simp
next
  case (Cons b bs)
  have "take (Suc p + length bs) (store (Suc p) bs (out[p := b]))
          = take (Suc p) (out[p := b]) @ bs"
    using Cons.prems by (intro Cons.IH) simp
  moreover have "take (Suc p) (out[p := b]) = take p out @ [b]"
    using Cons.prems by (simp add: take_Suc_conv_app_nth)
  ultimately show ?case by simp
qed

section \<open>One iteration of the UTF-16 loop\<close>

lemma octets_cases [case_names Nil One Pair]:
  assumes "inp = [] \<Longrightarrow> P"
    and "\<And>b0. inp = [b0] \<Longrightarrow> P"
    and "\<And>b0 b1 rest. inp = b0 # b1 # rest \<Longrightarrow> P"
  shows P
proof (cases inp)
  case Nil
  then show ?thesis by (rule assms(1))
next
  case (Cons b0 bs)
  then show ?thesis
    by (cases bs) (auto intro: assms(2,3))
qed

lemma word_le_chain:
  fixes c :: uint32
  shows "c \<le> 0x7f \<Longrightarrow> c \<le> 0x10ffff" "c \<le> 0x7ff \<Longrightarrow> c \<le> 0x10ffff"
    "c \<le> 0xffff \<Longrightarrow> c \<le> 0x10ffff"
  by (simp_all add: word_le_nat_alt)

lemma encode_UTF8_store:
  "encode_UTF8 c r out =
     (if c \<le> 0x10ffff then Some (r + length (utf8_octets c), store r (utf8_octets c) out)
      else None)"
proof -
  have add3: "r + 3 = Suc (Suc (Suc r))" by simp
  show ?thesis
    using word_le_chain [of c]
    by (simp add: encode_UTF8_def utf8_octets_def add3)
qed

lemma loop16_unfold:
  "ConvertUTF16ToUTF8_loop le (b0 # b1 # rest) r out =
     (case next_character le (b0 # b1 # rest) of
        Inl e \<Rightarrow> (Inl e, out)
      | Inr (c, rest') \<Rightarrow>
          (case encode_UTF8 c r out of
             None \<Rightarrow> (Inl Codepoint_Out_Of_Range, out)
           | Some (r', out') \<Rightarrow> ConvertUTF16ToUTF8_loop le rest' r' out'))"
  by (simp add: Let_def split: list.split)

lemma utf8_of_utf16_unfold:
  "utf8_of_utf16 le (b0 # b1 # rest) =
     (case next_character le (b0 # b1 # rest) of
        Inl e \<Rightarrow> Inl e
      | Inr (c, rest') \<Rightarrow>
          (case utf8_of_utf16 le rest' of
             Inl e \<Rightarrow> Inl e
           | Inr cs \<Rightarrow> Inr (utf8_octets c @ cs)))"
  by (simp add: Let_def split: list.split)

lemma loop16_short:
  "ConvertUTF16ToUTF8_loop le [] r out = (Inr r, out)"
  "ConvertUTF16ToUTF8_loop le [b0] r out = (Inl Read_Past_End, out)"
  by simp_all

lemma next_character_short:
  "next_character le [] = Inl Read_Past_End"
  "next_character le [b0] = Inl Read_Past_End"
  by simp_all

lemma utf8_of_utf16_short:
  "utf8_of_utf16 le [] = Inr []"
  "utf8_of_utf16 le [b0] = Inl Read_Past_End"
  by simp_all

lemma next_character_length:
  "next_character le inp = Inr (c, rest) \<Longrightarrow>
     length inp = length rest + 2 \<or> length inp = length rest + 4"
  by (cases "(le, inp)" rule: next_character.cases)
     (auto simp: Let_def split: if_split_asm list.split_asm)

lemma unat_ucast_16_32: "unat (ucast (x :: uint16) :: uint32) = unat x"
proof -
  have "unat x < 2 ^ 16" using unsigned_less [of x] by simp
  then show ?thesis
    by (simp add: unsigned_ucast_eq take_bit_nat_eq_self)
qed

lemma ucast_16_32_le: "(ucast (x :: uint16) :: uint32) \<le> 0x10ffff"
proof -
  have "unat x < 2 ^ 16" using unsigned_less [of x] by simp
  then show ?thesis
    by (simp add: word_le_nat_alt unat_ucast_16_32)
qed

lemma combine_surrogates_le:
  fixes u :: uint32 and low :: uint16
  assumes "0xD800 \<le> u" "u \<le> 0xDBFF" "0xDC00 \<le> low" "low \<le> 0xDFFF"
  shows "combine_surrogates u low \<le> 0x10ffff" and "0x10000 \<le> combine_surrogates u low"
proof -
  have bounds: "55296 \<le> unat u" "unat u \<le> 56319" "56320 \<le> unat low" "unat low \<le> 57343"
    using assms by (simp_all add: word_le_nat_alt)
  have eq: "unat (combine_surrogates u low)
              = 0x10000 + (unat u - 0xD800) * 1024 + (unat low - 0xDC00)"
    using assms by (rule combine_surrogates_unat)
  show "combine_surrogates u low \<le> 0x10ffff"
    unfolding word_le_nat_alt eq using bounds by simp
  show "0x10000 \<le> combine_surrogates u low"
    unfolding word_le_nat_alt eq by simp
qed

lemma high_surrogate_bounds:
  fixes c :: uint32
  assumes "Surrogate_High_Min \<le> c"
    and "\<not> (Surrogate_Low_Min \<le> c \<and> c \<le> Surrogate_Low_Max)"
    and "c \<le> Surrogate_Low_Max"
  shows "0xD800 \<le> c" "c \<le> 0xDBFF"
  using assms by (simp_all add: constants_defs word_le_nat_alt)

lemma low_surrogate_bounds:
  fixes l :: uint16
  assumes "\<not> (ucast l < Surrogate_Low_Min \<or> ucast l > Surrogate_Low_Max)"
  shows "0xDC00 \<le> l" "l \<le> 0xDFFF"
  using assms
  by (simp_all add: constants_defs word_le_nat_alt word_less_nat_alt unat_ucast_16_32)

lemma next_character_range:
  assumes "next_character le inp = Inr (c, rest)"
  shows "c \<le> 0x10ffff"
proof (cases inp rule: octets_cases)
  case (Pair b0 b1 rest0)
  define character :: uint32 where "character = ucast (ExtractUTF16 le b0 b1)"
  show ?thesis
  proof (cases "character \<ge> Surrogate_High_Min \<and> character \<le> Surrogate_Low_Max")
    case False
    with assms Pair have "c = character"
      by (auto simp: Let_def character_def split: if_split_asm)
    then show ?thesis by (simp add: character_def ucast_16_32_le)
  next
    case True
    with assms Pair obtain c0 c1 rest' where
      nl: "\<not> (character \<ge> Surrogate_Low_Min \<and> character \<le> Surrogate_Low_Max)"
      and l: "\<not> (ucast (ExtractUTF16 le c0 c1) < Surrogate_Low_Min
                 \<or> ucast (ExtractUTF16 le c0 c1) > Surrogate_Low_Max)"
      and c: "c = combine_surrogates character (ExtractUTF16 le c0 c1)"
      by (auto simp: Let_def character_def split: if_split_asm list.split_asm)
    show ?thesis
      unfolding c
      using high_surrogate_bounds [of character] low_surrogate_bounds [OF l] True nl
      by (intro combine_surrogates_le(1)) simp_all
  qed
qed (use assms in simp_all)

lemma next_character_failure:
  "next_character le inp = Inl e \<Longrightarrow>
     e = Lone_Low_Surrogate \<or> e = Truncated_Pair \<or> e = Bad_Low_Surrogate
     \<or> (e = Read_Past_End \<and> (inp = [] \<or> odd (length inp)))"
  by (cases "(le, inp)" rule: next_character.cases)
     (auto simp: Let_def split: if_split_asm list.split_asm)

lemma surrogate_class:
  fixes u :: uint16
  shows "(Surrogate_High_Min \<le> ucast u \<and> (ucast u :: uint32) \<le> Surrogate_Low_Max)
           \<longleftrightarrow> is_high_surrogate u \<or> is_low_surrogate u"
    and "(Surrogate_Low_Min \<le> ucast u \<and> (ucast u :: uint32) \<le> Surrogate_Low_Max)
           \<longleftrightarrow> is_low_surrogate u"
    and "((ucast u :: uint32) < Surrogate_Low_Min \<or> (ucast u :: uint32) > Surrogate_Low_Max)
           \<longleftrightarrow> \<not> is_low_surrogate u"
    and "is_low_surrogate u \<Longrightarrow> \<not> is_high_surrogate u"
  by (auto simp: constants_defs is_high_surrogate_def is_low_surrogate_def
      word_le_nat_alt word_less_nat_alt unat_ucast_16_32)

lemma next_character_units:
  "next_character le (b0 # b1 # rest) =
     (if is_low_surrogate (ExtractUTF16 le b0 b1) then Inl Lone_Low_Surrogate
      else if is_high_surrogate (ExtractUTF16 le b0 b1) then
        (case rest of
           [] \<Rightarrow> Inl Truncated_Pair
         | [c0] \<Rightarrow> Inl Read_Past_End
         | c0 # c1 # rest' \<Rightarrow>
             if is_low_surrogate (ExtractUTF16 le c0 c1)
             then Inr (combine_surrogates (ucast (ExtractUTF16 le b0 b1))
                         (ExtractUTF16 le c0 c1), rest')
             else Inl Bad_Low_Surrogate)
      else Inr (ucast (ExtractUTF16 le b0 b1), rest))"
  by (simp add: Let_def surrogate_class split: list.split)

declare ConvertUTF16ToUTF8_loop.simps [simp del] next_character.simps [simp del]
  utf8_of_utf16.simps [simp del]

declare loop16_short [simp] next_character_short [simp] utf8_of_utf16_short [simp]

lemma utf8_of_utf16_Cons:
  "utf8_of_utf16 le (b # bs) =
     (case next_character le (b # bs) of
        Inl e \<Rightarrow> Inl e
      | Inr (c, rest) \<Rightarrow>
          (case utf8_of_utf16 le rest of
             Inl e \<Rightarrow> Inl e
           | Inr cs \<Rightarrow> Inr (utf8_octets c @ cs)))"
proof (cases bs)
  case Nil
  then show ?thesis by simp
next
  case (Cons b1 rest)
  then show ?thesis by (simp only: utf8_of_utf16_unfold)
qed

section \<open>The UTF-16 loop and the octets it writes\<close>

lemma loop16_pure:
  "fst (ConvertUTF16ToUTF8_loop le inp r out)
     = (case utf8_of_utf16 le inp of Inl e \<Rightarrow> Inl e | Inr bs \<Rightarrow> Inr (r + length bs))
   \<and> (\<forall>bs. utf8_of_utf16 le inp = Inr bs
          \<longrightarrow> snd (ConvertUTF16ToUTF8_loop le inp r out) = store r bs out)"
proof (induction "length inp" arbitrary: inp r out rule: less_induct)
  case less
  show ?case
  proof (cases inp rule: octets_cases)
    case (Pair b0 b1 rest)
    then have inp: "inp = b0 # b1 # rest" by simp
    show ?thesis
    proof (cases "next_character le inp")
      case (Inl e)
      then show ?thesis
        unfolding inp by (simp add: loop16_unfold utf8_of_utf16_Cons)
    next
      case (Inr cr)
      obtain c rest' where cr: "cr = (c, rest')" by (cases cr)
      have nc: "next_character le inp = Inr (c, rest')"
        using Inr cr by simp
      have c: "c \<le> 0x10ffff"
        using nc by (rule next_character_range)
      have "length rest' < length inp"
        using next_character_length [OF nc] by auto
      note IH = less [OF this, of "r + length (utf8_octets c)" "store r (utf8_octets c) out"]
      have loop: "ConvertUTF16ToUTF8_loop le inp r out
                    = ConvertUTF16ToUTF8_loop le rest' (r + length (utf8_octets c))
                        (store r (utf8_octets c) out)"
        using nc c unfolding inp by (simp add: loop16_unfold encode_UTF8_store)
      have pure: "utf8_of_utf16 le inp
                    = (case utf8_of_utf16 le rest' of
                         Inl e \<Rightarrow> Inl e
                       | Inr cs \<Rightarrow> Inr (utf8_octets c @ cs))"
        using nc unfolding inp by (simp add: utf8_of_utf16_Cons)
      show ?thesis
        unfolding loop pure using IH
        by (auto simp: store_append split: sum.splits)
    qed
  next
    case Nil
    then show ?thesis by simp
  next
    case (One v)
    then show ?thesis by simp
  qed
qed

lemma utf8_of_utf16_failure:
  "utf8_of_utf16 le inp = Inl e \<Longrightarrow>
     e = Lone_Low_Surrogate \<or> e = Truncated_Pair \<or> e = Bad_Low_Surrogate
     \<or> (e = Read_Past_End \<and> odd (length inp))"
proof (induction "length inp" arbitrary: inp rule: less_induct)
  case less
  show ?case
  proof (cases inp)
    case Nil
    with less.prems show ?thesis by simp
  next
    case (Cons b bs)
    show ?thesis
    proof (cases "next_character le inp")
      case (Inl e')
      with less.prems Cons have "e' = e"
        by (simp add: utf8_of_utf16_Cons)
      with next_character_failure [OF Inl] Cons show ?thesis by auto
    next
      case (Inr cr)
      obtain c rest where nc: "next_character le inp = Inr (c, rest)"
        using Inr by (cases cr) simp
      have len: "length inp = length rest + 2 \<or> length inp = length rest + 4"
        using nc by (rule next_character_length)
      have "utf8_of_utf16 le rest = Inl e"
        using less.prems nc unfolding Cons
        by (simp add: utf8_of_utf16_Cons split: sum.split_asm)
      moreover have "length rest < length inp"
        using len by auto
      ultimately have "e = Lone_Low_Surrogate \<or> e = Truncated_Pair \<or> e = Bad_Low_Surrogate
          \<or> (e = Read_Past_End \<and> odd (length rest))"
        by (intro less.hyps)
      with len show ?thesis by auto
    qed
  qed
qed

text \<open>
  C9.  The last \<open>return {false, 0}\<close> of \<open>ConvertUTF16ToUTF8\<close>, after the four range
  tests of the UTF-8 encoding step, is never taken: every character that reaches the
  encoding step is at most 0x10FFFF, so the step stores its octets, and neither the loop
  nor the function ever fails there.
\<close>

theorem defensive_branch_unreachable:
  "(\<forall>c rest r out'. next_character le inp = Inr (c, rest)
       \<longrightarrow> c \<le> 0x10ffff \<and> encode_UTF8 c r out' \<noteq> None)
   \<and> fst (ConvertUTF16ToUTF8_loop le inp r out) \<noteq> Inl Codepoint_Out_Of_Range
   \<and> fst (ConvertUTF16ToUTF8_body inp out little_endian) \<noteq> Inl Codepoint_Out_Of_Range"
proof -
  have loop: "fst (ConvertUTF16ToUTF8_loop le' inp r' out') \<noteq> Inl Codepoint_Out_Of_Range"
    for le' r' out'
  proof (cases "utf8_of_utf16 le' inp")
    case (Inl e)
    with utf8_of_utf16_failure [OF Inl] show ?thesis
      using loop16_pure [of le' inp r' out'] by auto
  next
    case (Inr bs)
    then show ?thesis
      using loop16_pure [of le' inp r' out'] by simp
  qed
  have "c \<le> 0x10ffff \<and> encode_UTF8 c r' out' \<noteq> None"
    if "next_character le inp = Inr (c, rest)" for c rest r' out'
    using next_character_range [OF that] by (simp add: encode_UTF8_store)
  moreover have "fst (ConvertUTF16ToUTF8_body inp out little_endian)
                   \<noteq> Inl Codepoint_Out_Of_Range"
    using loop by (simp add: ConvertUTF16ToUTF8_body_def)
  ultimately show ?thesis
    using loop by blast
qed

theorem defensive_branch_unreachable_witness:
  "next_character True [0x3d, 0xd8, 0x00, 0xde] = Inr (0x1F600, [])
   \<and> (0x1F600 :: uint32) \<le> 0x10ffff \<and> encode_UTF8 0x1F600 0 [0, 0, 0, 0] \<noteq> None"
proof -
  have "next_character True [0x3d, 0xd8, 0x00, 0xde] = Inr (0x1F600, [])"
    by (simp add: next_character.simps converter_defs constants_defs)
  with defensive_branch_unreachable [of True "[0x3d, 0xd8, 0x00, 0xde]"]
  show ?thesis by blast
qed

section \<open>Surrogates that are not paired\<close>

lemma utf8_of_utf16_paired:
  "even (length inp) \<Longrightarrow>
     (\<exists>bs. utf8_of_utf16 le inp = Inr bs) \<longleftrightarrow> surrogates_paired (code_units le inp)"
proof (induction "length inp" arbitrary: inp rule: less_induct)
  case less
  show ?case
  proof (cases inp rule: octets_cases)
    case (Pair b0 b1 rest)
    then have inp: "inp = b0 # b1 # rest" by simp
    define u where "u = ExtractUTF16 le b0 b1"
    have even_rest: "even (length rest)"
      using less.prems inp by simp
    consider (low) "is_low_surrogate u"
      | (high) "\<not> is_low_surrogate u" "is_high_surrogate u"
      | (plain) "\<not> is_low_surrogate u" "\<not> is_high_surrogate u"
      by blast
    then show ?thesis
    proof cases
      case low
      then show ?thesis
        unfolding inp by (simp add: utf8_of_utf16_Cons next_character_units u_def)
    next
      case plain
      have "(\<exists>bs. utf8_of_utf16 le rest = Inr bs)
              \<longleftrightarrow> surrogates_paired (code_units le rest)"
        using even_rest inp by (intro less.hyps) simp_all
      with plain show ?thesis
        unfolding inp
        by (auto simp: utf8_of_utf16_Cons next_character_units u_def split: sum.splits)
    next
      case high
      show ?thesis
      proof (cases rest rule: octets_cases)
        case (Pair c0 c1 rest')
        then have rest: "rest = c0 # c1 # rest'" by simp
        have "(\<exists>bs. utf8_of_utf16 le rest' = Inr bs)
                \<longleftrightarrow> surrogates_paired (code_units le rest')"
          using even_rest inp rest by (intro less.hyps) simp_all
        with high show ?thesis
          unfolding inp rest
          by (auto simp: utf8_of_utf16_Cons next_character_units u_def split: sum.splits)
      next
        case Nil
        with high show ?thesis
          unfolding inp by (simp add: utf8_of_utf16_Cons next_character_units u_def)
      next
        case (One v)
        with even_rest show ?thesis by simp
      qed
    qed
  next
    case Nil
    then show ?thesis by simp
  next
    case (One v)
    with less.prems show ?thesis by simp
  qed
qed

lemma surrogates_paired_index:
  "surrogates_paired us \<Longrightarrow> i < length us \<Longrightarrow>
     (is_low_surrogate (us ! i) \<longrightarrow> 0 < i \<and> is_high_surrogate (us ! (i - 1)))
     \<and> (is_high_surrogate (us ! i) \<longrightarrow> Suc i < length us \<and> is_low_surrogate (us ! Suc i))"
proof (induction us arbitrary: i rule: surrogates_paired.induct)
  case 1
  then show ?case by simp
next
  case (2 u us)
  consider (low) "is_low_surrogate u"
    | (high) "\<not> is_low_surrogate u" "is_high_surrogate u"
    | (plain) "\<not> is_low_surrogate u" "\<not> is_high_surrogate u"
    by blast
  then show ?case
  proof cases
    case low
    with "2.prems" show ?thesis by simp
  next
    case plain
    with "2.prems" have p: "surrogates_paired us" by simp
    show ?thesis
    proof (cases i)
      case 0
      with plain show ?thesis by simp
    next
      case (Suc j)
      with "2.prems" have j: "j < length us" by simp
      note IH = "2.IH"(2) [OF plain p j]
      show ?thesis
      proof (cases j)
        case 0
        with IH Suc plain show ?thesis by auto
      next
        case (Suc k)
        with IH \<open>i = Suc j\<close> show ?thesis by auto
      qed
    qed
  next
    case high
    with "2.prems" obtain l us' where us: "us = l # us'" and l: "is_low_surrogate l"
      and p: "surrogates_paired us'"
      by (auto split: list.split_asm)
    show ?thesis
    proof (cases i)
      case 0
      with high us l show ?thesis by simp
    next
      case (Suc j)
      show ?thesis
      proof (cases j)
        case 0
        with Suc high us l surrogate_class(4) [OF l] show ?thesis by simp
      next
        case (Suc k)
        with "2.prems" \<open>i = Suc j\<close> us have k: "k < length us'" by simp
        note IH = "2.IH"(1) [OF high us p k]
        show ?thesis
        proof (cases k)
          case 0
          with IH Suc \<open>i = Suc j\<close> us l surrogate_class(4) [OF l] show ?thesis by auto
        next
          case (Suc m)
          with IH \<open>j = Suc k\<close> \<open>i = Suc j\<close> us show ?thesis by auto
        qed
      qed
    qed
  qed
qed

text \<open>
  C5.  \<open>ConvertUTF16ToUTF8\<close> fails on malformed surrogates.  Let \<open>us\<close> be the code units
  of an input of even length, read in the byte order the function uses (the caller's, or
  the one of a byte order mark).  If some code unit is a low surrogate (0xDC00..0xDFFF)
  that is not immediately preceded by a high surrogate, or some code unit is a high
  surrogate (0xD800..0xDBFF) that is not immediately followed by a low surrogate, because
  the input ends there or the next unit is out of range, the conversion returns failure
  with length 0.
\<close>

theorem malformed_surrogates_rejected:
  assumes "even (length inp)"
    and "us = code_units (detect_BOM inp little_endian) inp"
    and "(\<exists>i<length us. is_low_surrogate (us ! i)
            \<and> (i = 0 \<or> \<not> is_high_surrogate (us ! (i - 1))))
       \<or> (\<exists>i<length us. is_high_surrogate (us ! i)
            \<and> (Suc i = length us \<or> \<not> is_low_surrogate (us ! Suc i)))"
  shows "fst (ConvertUTF16ToUTF8 inp out little_endian) = (False, 0)"
proof -
  have "\<not> surrogates_paired us"
  proof
    assume p: "surrogates_paired us"
    from assms(3) show False
    proof
      assume "\<exists>i<length us. is_low_surrogate (us ! i)
                \<and> (i = 0 \<or> \<not> is_high_surrogate (us ! (i - 1)))"
      then obtain i where "i < length us" "is_low_surrogate (us ! i)"
        "i = 0 \<or> \<not> is_high_surrogate (us ! (i - 1))"
        by blast
      with surrogates_paired_index [OF p, of i] show False by auto
    next
      assume "\<exists>i<length us. is_high_surrogate (us ! i)
                \<and> (Suc i = length us \<or> \<not> is_low_surrogate (us ! Suc i))"
      then obtain i where "i < length us" "is_high_surrogate (us ! i)"
        "Suc i = length us \<or> \<not> is_low_surrogate (us ! Suc i)"
        by blast
      with surrogates_paired_index [OF p, of i] show False by auto
    qed
  qed
  then have "\<nexists>bs. utf8_of_utf16 (detect_BOM inp little_endian) inp = Inr bs"
    using utf8_of_utf16_paired [OF assms(1)] assms(2) by simp
  then obtain e where "utf8_of_utf16 (detect_BOM inp little_endian) inp = Inl e"
    by (cases "utf8_of_utf16 (detect_BOM inp little_endian) inp") auto
  then have "fst (ConvertUTF16ToUTF8_loop (detect_BOM inp little_endian) inp 0 out) = Inl e"
    using loop16_pure [of "detect_BOM inp little_endian" inp 0 out] by simp
  moreover have "inp \<noteq> []"
    using assms(2,3) by auto
  ultimately have "\<exists>e'. fst (ConvertUTF16ToUTF8_body inp out little_endian) = Inl e'"
    by (simp add: ConvertUTF16ToUTF8_body_def)
  then obtain e' where "fst (ConvertUTF16ToUTF8_body inp out little_endian) = Inl e'"
    by blast
  then show ?thesis
    by (cases "ConvertUTF16ToUTF8_body inp out little_endian")
       (simp add: ConvertUTF16ToUTF8_def)
qed

theorem malformed_surrogates_rejected_witness:
  "even (length [0x00, 0xDC :: octet])
   \<and> code_units (detect_BOM [0x00, 0xDC] True) [0x00, 0xDC] = [0xDC00]
   \<and> is_low_surrogate 0xDC00
   \<and> fst (ConvertUTF16ToUTF8 [0x00, 0xDC] [0, 0, 0] True) = (False, 0)
   \<and> even (length [0x41, 0x00, 0x3D, 0xD8 :: octet])
   \<and> code_units (detect_BOM [0x41, 0x00, 0x3D, 0xD8] True) [0x41, 0x00, 0x3D, 0xD8]
       = [0x0041, 0xD83D]
   \<and> is_high_surrogate 0xD83D
   \<and> fst (ConvertUTF16ToUTF8 [0x41, 0x00, 0x3D, 0xD8] [0, 0, 0, 0, 0, 0] True) = (False, 0)"
proof -
  have us1: "code_units (detect_BOM [0x00, 0xDC] True) [0x00, 0xDC] = [0xDC00]"
    by (simp add: converter_defs)
  have low: "is_low_surrogate 0xDC00"
    by (simp add: is_low_surrogate_def)
  have r1: "fst (ConvertUTF16ToUTF8 [0x00, 0xDC] [0, 0, 0] True) = (False, 0)"
    by (rule malformed_surrogates_rejected [where us = "[0xDC00]"])
       (simp_all add: converter_defs low)
  have us2: "code_units (detect_BOM [0x41, 0x00, 0x3D, 0xD8] True) [0x41, 0x00, 0x3D, 0xD8]
               = [0x0041, 0xD83D]"
    by (simp add: converter_defs)
  have high: "is_high_surrogate 0xD83D"
    by (simp add: is_high_surrogate_def)
  have last_high:
    "(\<exists>i<length [0x0041, 0xD83D :: uint16]. is_low_surrogate ([0x0041, 0xD83D] ! i)
        \<and> (i = 0 \<or> \<not> is_high_surrogate ([0x0041, 0xD83D] ! (i - 1))))
     \<or> (\<exists>i<length [0x0041, 0xD83D :: uint16]. is_high_surrogate ([0x0041, 0xD83D] ! i)
        \<and> (Suc i = length [0x0041, 0xD83D :: uint16]
             \<or> \<not> is_low_surrogate ([0x0041, 0xD83D] ! Suc i)))"
    by (intro disjI2 exI [of _ 1]) (simp add: high)
  have r2: "fst (ConvertUTF16ToUTF8 [0x41, 0x00, 0x3D, 0xD8] [0, 0, 0, 0, 0, 0] True)
              = (False, 0)"
    by (rule malformed_surrogates_rejected [where us = "[0x0041, 0xD83D]", OF _ _ last_high])
       (simp_all add: converter_defs)
  show ?thesis
    using us1 low r1 us2 high r2 by simp
qed

section \<open>Byte order marks\<close>

lemma loop16_BOM:
  "ConvertUTF16ToUTF8_loop False (0xFE # 0xFF # rest) 0 out
     = ConvertUTF16ToUTF8_loop False rest 3 (store 0 [0xEF, 0xBB, 0xBF] out)"
  "ConvertUTF16ToUTF8_loop True (0xFF # 0xFE # rest) 0 out
     = ConvertUTF16ToUTF8_loop True rest 3 (store 0 [0xEF, 0xBB, 0xBF] out)"
  by (simp_all add: loop16_unfold next_character.simps converter_defs constants_defs)

lemma utf8_of_utf16_BOM:
  "utf8_of_utf16 False (0xFE # 0xFF # rest)
     = (case utf8_of_utf16 False rest of
          Inl e \<Rightarrow> Inl e | Inr bs \<Rightarrow> Inr ([0xEF, 0xBB, 0xBF] @ bs))"
  "utf8_of_utf16 True (0xFF # 0xFE # rest)
     = (case utf8_of_utf16 True rest of
          Inl e \<Rightarrow> Inl e | Inr bs \<Rightarrow> Inr ([0xEF, 0xBB, 0xBF] @ bs))"
  by (simp_all add: utf8_of_utf16_Cons next_character.simps converter_defs constants_defs
      utf8_octets_def split: sum.split)

lemma detect_BOM_Cons:
  "2 \<le> length rest \<Longrightarrow> detect_BOM (0xFE # 0xFF # rest) le = False"
  "2 \<le> length rest \<Longrightarrow> detect_BOM (0xFF # 0xFE # rest) le = True"
  by (simp_all add: detect_BOM_def)

lemma no_wrap_16:
  assumes "n \<le> unat (Max_UTF16_String :: size_t)"
  shows "(n + n div 2) mod 2 ^ 64 = n + n div 2"
proof -
  have "n \<le> 12297829382473034410"
    using assms by (simp only: Max_UTF16_String_64)
  then have "n + n div 2 < 18446744073709551616"
    by linarith
  also have "(18446744073709551616 :: nat) = 2 ^ 64"
    by simp
  finally show ?thesis
    by (rule mod_less)
qed

lemma BOM_output:
  assumes len: "4 \<le> length inp"
    and bom: "inp ! 0 = 0xFE \<and> inp ! 1 = 0xFF \<or> inp ! 0 = 0xFF \<and> inp ! 1 = 0xFE"
    and ok: "fst (ConvertUTF16ToUTF8 inp out le) = (True, n)"
  shows "3 \<le> n \<and> take 3 (snd (ConvertUTF16ToUTF8 inp out le)) = [0xEF, 0xBB, 0xBF]"
proof -
  obtain b0 b1 rest where inp: "inp = b0 # b1 # rest"
    using len by (cases inp rule: octets_cases) auto
  have rest: "2 \<le> length rest"
    using len inp by simp
  define le' where "le' = detect_BOM inp le"
  have fail: "fst (result_pair (Inl e, b)) \<noteq> (True, n)" for e b
    by simp
  have nonempty: "inp \<noteq> []"
    using inp by simp
  have small: "length inp \<le> unat (Max_UTF16_String :: size_t)"
  proof (rule ccontr)
    assume "\<not> length inp \<le> unat (Max_UTF16_String :: size_t)"
    then have "fst (ConvertUTF16ToUTF8 inp out le) = (False, 0)"
      using nonempty by (simp add: ConvertUTF16ToUTF8_def ConvertUTF16ToUTF8_body_def)
    with ok show False by simp
  qed
  have cap: "length inp + length inp div 2 \<le> length out"
  proof (rule ccontr)
    assume "\<not> length inp + length inp div 2 \<le> length out"
    then have "length out < (length inp + length inp div 2) mod 2 ^ 64"
      by (simp only: no_wrap_16 [OF small])
    then have "fst (ConvertUTF16ToUTF8 inp out le) = (False, 0)"
      using nonempty
      by (simp add: ConvertUTF16ToUTF8_def ConvertUTF16ToUTF8_body_def del: power_numeral)
    with ok show False by simp
  qed
  have body: "ConvertUTF16ToUTF8_body inp out le = ConvertUTF16ToUTF8_loop le' inp 0 out"
  proof (rule ccontr)
    assume "ConvertUTF16ToUTF8_body inp out le \<noteq> ConvertUTF16ToUTF8_loop le' inp 0 out"
    then have "fst (ConvertUTF16ToUTF8 inp out le) = (False, 0)"
      unfolding le'_def
      by (simp add: ConvertUTF16ToUTF8_def ConvertUTF16ToUTF8_body_def split: if_split_asm)
    with ok show False by simp
  qed
  have pat: "le' = False \<and> b0 = 0xFE \<and> b1 = 0xFF \<or> le' = True \<and> b0 = 0xFF \<and> b1 = 0xFE"
    using bom rest unfolding le'_def inp by (auto simp: detect_BOM_def)
  obtain r out' where res: "ConvertUTF16ToUTF8_loop le' inp 0 out = (r, out')"
    by (cases "ConvertUTF16ToUTF8_loop le' inp 0 out")
  have r: "r = Inr n"
    using ok unfolding ConvertUTF16ToUTF8_def body res by (cases r) simp_all
  obtain bs where bs: "utf8_of_utf16 le' inp = Inr bs" and n: "n = length bs"
    and out': "out' = store 0 bs out"
    using loop16_pure [of le' inp 0 out] res r
    by (cases "utf8_of_utf16 le' inp") auto
  obtain bs' where bs': "bs = [0xEF, 0xBB, 0xBF] @ bs'"
    using bs pat unfolding inp
    by (auto simp: utf8_of_utf16_BOM split: sum.split_asm)
  have "take 3 out' = take 3 (store 0 [0xEF, 0xBB, 0xBF] out)"
    unfolding out' bs' store_append by (simp add: take_store_below)
  also have "\<dots> = [0xEF, 0xBB, 0xBF]"
    using take_store [of 0 "[0xEF, 0xBB, 0xBF]" out] cap len by (simp add: numeral_3_eq_3)
  finally have "take 3 out' = [0xEF, 0xBB, 0xBF]" .
  moreover have "snd (ConvertUTF16ToUTF8 inp out le) = out'"
    unfolding ConvertUTF16ToUTF8_def body res r by simp
  ultimately show ?thesis
    using n bs' by simp
qed

text \<open>
  C4.  Byte order marks in \<open>ConvertUTF16ToUTF8\<close>.  An input of at least 4 octets that
  begins with FE FF is decoded big-endian whatever the \<open>little_endian\<close> argument is, and
  one that begins with FF FE is decoded little-endian: after the parity, ceiling and
  capacity tests the function is the loop in that byte order on the rest of the input,
  with the octets EF BB BF already stored at the start of the output.  Any other input is
  decoded with the caller's flag.  The mark is not stripped: whenever the conversion of an
  input with a mark succeeds, the output begins with EF BB BF.
\<close>

theorem BOM_detection:
  "(2 \<le> length rest \<longrightarrow>
      ConvertUTF16ToUTF8_body (0xFE # 0xFF # rest) out little_endian =
        (if odd (length rest) then (Inl Odd_Length, out)
         else if length rest + 2 > unat (Max_UTF16_String :: size_t) then (Inl Too_Long, out)
         else if length out < (length rest + 2 + (length rest + 2) div 2) mod 2 ^ 64
           then (Inl Buffer_Too_Small, out)
         else ConvertUTF16ToUTF8_loop False rest 3 (store 0 [0xEF, 0xBB, 0xBF] out)))
   \<and> (2 \<le> length rest \<longrightarrow>
      ConvertUTF16ToUTF8_body (0xFF # 0xFE # rest) out little_endian =
        (if odd (length rest) then (Inl Odd_Length, out)
         else if length rest + 2 > unat (Max_UTF16_String :: size_t) then (Inl Too_Long, out)
         else if length out < (length rest + 2 + (length rest + 2) div 2) mod 2 ^ 64
           then (Inl Buffer_Too_Small, out)
         else ConvertUTF16ToUTF8_loop True rest 3 (store 0 [0xEF, 0xBB, 0xBF] out)))
   \<and> (\<not> (4 \<le> length inp
           \<and> (inp ! 0 = 0xFE \<and> inp ! 1 = 0xFF \<or> inp ! 0 = 0xFF \<and> inp ! 1 = 0xFE)) \<longrightarrow>
      ConvertUTF16ToUTF8_body inp out little_endian =
        (if inp = [] then (Inr 0, out)
         else if odd (length inp) then (Inl Odd_Length, out)
         else if length inp > unat (Max_UTF16_String :: size_t) then (Inl Too_Long, out)
         else if length out < (length inp + length inp div 2) mod 2 ^ 64
           then (Inl Buffer_Too_Small, out)
         else ConvertUTF16ToUTF8_loop little_endian inp 0 out))
   \<and> (4 \<le> length inp
        \<and> (inp ! 0 = 0xFE \<and> inp ! 1 = 0xFF \<or> inp ! 0 = 0xFF \<and> inp ! 1 = 0xFE)
        \<and> fst (ConvertUTF16ToUTF8 inp out little_endian) = (True, n) \<longrightarrow>
      3 \<le> n \<and> take 3 (snd (ConvertUTF16ToUTF8 inp out little_endian)) = [0xEF, 0xBB, 0xBF])"
proof (intro conjI impI)
  assume "2 \<le> length rest"
  then show "ConvertUTF16ToUTF8_body (0xFE # 0xFF # rest) out little_endian =
        (if odd (length rest) then (Inl Odd_Length, out)
         else if length rest + 2 > unat (Max_UTF16_String :: size_t) then (Inl Too_Long, out)
         else if length out < (length rest + 2 + (length rest + 2) div 2) mod 2 ^ 64
           then (Inl Buffer_Too_Small, out)
         else ConvertUTF16ToUTF8_loop False rest 3 (store 0 [0xEF, 0xBB, 0xBF] out))"
    by (simp add: ConvertUTF16ToUTF8_body_def detect_BOM_Cons loop16_BOM)
next
  assume "2 \<le> length rest"
  then show "ConvertUTF16ToUTF8_body (0xFF # 0xFE # rest) out little_endian =
        (if odd (length rest) then (Inl Odd_Length, out)
         else if length rest + 2 > unat (Max_UTF16_String :: size_t) then (Inl Too_Long, out)
         else if length out < (length rest + 2 + (length rest + 2) div 2) mod 2 ^ 64
           then (Inl Buffer_Too_Small, out)
         else ConvertUTF16ToUTF8_loop True rest 3 (store 0 [0xEF, 0xBB, 0xBF] out))"
    by (simp add: ConvertUTF16ToUTF8_body_def detect_BOM_Cons loop16_BOM)
next
  assume "\<not> (4 \<le> length inp
           \<and> (inp ! 0 = 0xFE \<and> inp ! 1 = 0xFF \<or> inp ! 0 = 0xFF \<and> inp ! 1 = 0xFE))"
  then have "detect_BOM inp little_endian = little_endian"
    by (auto simp: detect_BOM_def)
  then show "ConvertUTF16ToUTF8_body inp out little_endian =
        (if inp = [] then (Inr 0, out)
         else if odd (length inp) then (Inl Odd_Length, out)
         else if length inp > unat (Max_UTF16_String :: size_t) then (Inl Too_Long, out)
         else if length out < (length inp + length inp div 2) mod 2 ^ 64
           then (Inl Buffer_Too_Small, out)
         else ConvertUTF16ToUTF8_loop little_endian inp 0 out)"
    by (simp add: ConvertUTF16ToUTF8_body_def)
next
  assume a: "4 \<le> length inp
        \<and> (inp ! 0 = 0xFE \<and> inp ! 1 = 0xFF \<or> inp ! 0 = 0xFF \<and> inp ! 1 = 0xFE)
        \<and> fst (ConvertUTF16ToUTF8 inp out little_endian) = (True, n)"
  then show "3 \<le> n" 
    using BOM_output [of inp out little_endian n] by blast
  from a show "take 3 (snd (ConvertUTF16ToUTF8 inp out little_endian)) = [0xEF, 0xBB, 0xBF]"
    using BOM_output [of inp out little_endian n] by blast
qed

theorem BOM_detection_witness:
  "2 \<le> length [0x00, 0x41 :: octet]
   \<and> ConvertUTF16ToUTF8_body [0xFE, 0xFF, 0x00, 0x41] [0, 0, 0, 0, 0, 0] True
       = ConvertUTF16ToUTF8_loop False [0x00, 0x41] 3 (store 0 [0xEF, 0xBB, 0xBF] [0, 0, 0, 0, 0, 0])
   \<and> ConvertUTF16ToUTF8_body [0xFF, 0xFE, 0x00, 0x41] [0, 0, 0, 0, 0, 0] False
       = ConvertUTF16ToUTF8_loop True [0x00, 0x41] 3 (store 0 [0xEF, 0xBB, 0xBF] [0, 0, 0, 0, 0, 0])
   \<and> fst (ConvertUTF16ToUTF8 [0xFE, 0xFF, 0x00, 0x41] [0, 0, 0, 0, 0, 0] True) = (True, 4)
   \<and> take 3 (snd (ConvertUTF16ToUTF8 [0xFE, 0xFF, 0x00, 0x41] [0, 0, 0, 0, 0, 0] True))
       = [0xEF, 0xBB, 0xBF]
   \<and> \<not> (4 \<le> length [0x41, 0x00 :: octet]
          \<and> ([0x41, 0x00 :: octet] ! 0 = 0xFE \<and> [0x41, 0x00 :: octet] ! 1 = 0xFF
             \<or> [0x41, 0x00 :: octet] ! 0 = 0xFF \<and> [0x41, 0x00 :: octet] ! 1 = 0xFE))
   \<and> ConvertUTF16ToUTF8_body [0x41, 0x00] [0, 0, 0] False
       = ConvertUTF16ToUTF8_loop False [0x41, 0x00] 0 [0, 0, 0]"
proof -
  have len: "2 \<le> length [0x00, 0x41 :: octet]"
    by simp
  have ok: "fst (ConvertUTF16ToUTF8 [0xFE, 0xFF, 0x00, 0x41] [0, 0, 0, 0, 0, 0] True) = (True, 4)"
    by (simp add: converter_defs constants_defs ConvertUTF16ToUTF8_loop.simps
        Max_UTF16_String_64)
  have short: "\<not> (4 \<le> length [0x41, 0x00 :: octet]
          \<and> ([0x41, 0x00 :: octet] ! 0 = 0xFE \<and> [0x41, 0x00 :: octet] ! 1 = 0xFF
             \<or> [0x41, 0x00 :: octet] ! 0 = 0xFF \<and> [0x41, 0x00 :: octet] ! 1 = 0xFE))"
    by simp
  note bom = BOM_detection [of "[0x00, 0x41]" "[0, 0, 0, 0, 0, 0]" _
      "[0xFE, 0xFF, 0x00, 0x41]" 4]
  have be: "ConvertUTF16ToUTF8_body [0xFE, 0xFF, 0x00, 0x41] [0, 0, 0, 0, 0, 0] True
       = ConvertUTF16ToUTF8_loop False [0x00, 0x41] 3 (store 0 [0xEF, 0xBB, 0xBF] [0, 0, 0, 0, 0, 0])"
    using bom [of True] len by (simp add: Max_UTF16_String_64 del: store.simps)
  have le: "ConvertUTF16ToUTF8_body [0xFF, 0xFE, 0x00, 0x41] [0, 0, 0, 0, 0, 0] False
       = ConvertUTF16ToUTF8_loop True [0x00, 0x41] 3 (store 0 [0xEF, 0xBB, 0xBF] [0, 0, 0, 0, 0, 0])"
    using bom [of False] len by (simp add: Max_UTF16_String_64 del: store.simps)
  have out: "take 3 (snd (ConvertUTF16ToUTF8 [0xFE, 0xFF, 0x00, 0x41] [0, 0, 0, 0, 0, 0] True))
       = [0xEF, 0xBB, 0xBF]"
    using bom [of True] ok by simp
  have plain: "ConvertUTF16ToUTF8_body [0x41, 0x00] [0, 0, 0] False
       = ConvertUTF16ToUTF8_loop False [0x41, 0x00] 0 [0, 0, 0]"
    using BOM_detection [of "[]" "[0, 0, 0]" False "[0x41, 0x00]" 0] short
    by (simp add: Max_UTF16_String_64)
  show ?thesis
    using len be le ok out short plain by blast
qed

section \<open>The UTF-8 loop and the octets it writes\<close>

lemma InsertUTF16_store:
  "InsertUTF16 le ch p out = store p (utf16_octets le ch) out"
  by (simp add: InsertUTF16_def InsertUTF16LE_def InsertUTF16BE_def utf16_octets_def)

lemma length_utf16_octets [simp]: "length (utf16_octets le ch) = 2"
  by (simp add: utf16_octets_def)

lemma add4: "p + 4 = Suc (Suc (Suc (Suc p)))"
  by simp

lemma loop8_pure:
  "fst (ConvertUTF8ToUTF16_loop le s rem w p out)
     = (case utf16_of_utf8 le s rem w of Inl e \<Rightarrow> Inl e | Inr bs \<Rightarrow> Inr (p + length bs))
   \<and> (\<forall>bs. utf16_of_utf8 le s rem w = Inr bs
          \<longrightarrow> snd (ConvertUTF8ToUTF16_loop le s rem w p out) = store p bs out)"
proof (induction s arbitrary: rem w p out)
  case Nil
  then show ?case by simp
next
  case (Cons octet rest)
  show ?case
    apply (simp only: ConvertUTF8ToUTF16_loop.simps utf16_of_utf8.simps Let_def InsertUTF16_store)
    apply (simp add: Cons store_append add4 split: sum.split)
    done
qed

lemma valid_imp_converts:
  "IsUTF8Valid_loop s rem w \<Longrightarrow> \<exists>bs. utf16_of_utf8 le s rem w = Inr bs"
proof (induction s arbitrary: rem w)
  case Nil
  then show ?case by simp
next
  case (Cons octet rest)
  from Cons.prems show ?case
    apply (simp only: IsUTF8Valid_loop.simps utf16_of_utf8.simps Let_def)
    apply (simp split: if_split_asm)
    apply (auto dest!: Cons.IH)
    done
qed

lemma invalid_octets:
  "b \<in> set s \<Longrightarrow> b = 0xc0 \<or> b = 0xc1 \<or> b \<ge> 0xF5 \<Longrightarrow> \<not> IsUTF8Valid_loop s rem w"
proof (induction s arbitrary: rem w)
  case Nil
  then show ?case by simp
next
  case (Cons octet rest)
  show ?case
  proof (cases "octet = 0xc0 \<or> octet = 0xc1 \<or> octet \<ge> 0xF5")
    case True
    then show ?thesis by auto
  next
    case False
    with Cons.prems have "b \<in> set rest" by auto
    then have "\<not> IsUTF8Valid_loop rest rem' w'" for rem' w'
      using Cons.prems(2) by (rule Cons.IH)
    then show ?thesis
      by (simp add: Let_def)
  qed
qed

section \<open>Facts about single octets\<close>

lemma octet_exhaust:
  assumes "list_all P (map word_of_nat [0..<256])"
  shows "\<forall>c :: octet. P c"
proof
  fix c :: octet
  have "unat c < 256" using unsigned_less [of c] by simp
  then have "word_of_nat (unat c) \<in> (word_of_nat ` {0..<256} :: octet set)"
    by (intro imageI) simp
  then have "c \<in> set (map word_of_nat [0..<256])"
    by simp
  with assms show "P c"
    by (simp only: list_all_iff)
qed

lemma continuation_iff:
  "\<forall>c :: octet. c AND 0xc0 = 0x80 \<longleftrightarrow> 128 \<le> unat c \<and> unat c < 192"
  by (rule octet_exhaust) code_simp

lemma lead_iff:
  "\<forall>c :: octet. (c \<le> 0x7f \<longleftrightarrow> unat c < 128)
     \<and> (c AND 0xe0 = 0xc0 \<longleftrightarrow> 192 \<le> unat c \<and> unat c < 224)
     \<and> (c AND 0xf0 = 0xe0 \<longleftrightarrow> 224 \<le> unat c \<and> unat c < 240)
     \<and> (c AND 0xf8 = 0xf0 \<longleftrightarrow> 240 \<le> unat c \<and> unat c < 248)"
  by (rule octet_exhaust) code_simp

lemma payload_unat:
  "\<forall>c :: octet. unat (ucast (c AND 0x3f) :: uint32) = unat c mod 64
     \<and> unat (ucast (c AND 0x0f) :: uint32) = unat c mod 16
     \<and> unat (ucast (c AND 0x07) :: uint32) = unat c mod 8
     \<and> unat (ucast c :: uint16) = unat c"
  by (rule octet_exhaust) code_simp


lemma m3f: "(0x3f :: 'a::len word) = mask 6"
  by (simp add: mask_eq_exp_minus_1)

lemma append_bits_add:
  "push_bit 6 (w :: uint32) OR ucast ((c :: octet) AND mask 6)
     = push_bit 6 w + ucast (c AND mask 6)"
  by (rule disjunctive_add [symmetric]) (auto simp: bit_simps)

lemma append_bits_unat:
  "unat (w :: uint32) < 2 ^ 26 \<Longrightarrow>
     unat (push_bit 6 w OR ucast ((c :: octet) AND 0x3f)) = unat w * 64 + unat c mod 64"
  unfolding m3f append_bits_add
  by (simp add: unat_word_ariths unsigned_push_bit_eq unsigned_ucast_eq unsigned_and_eq
      take_bit_eq_mod push_bit_eq_mult mod_simps flip: take_bit_eq_mask)

lemma doomed_fails:
  assumes "(rem = 3 \<and> 5 \<le> unat w \<and> unat w < 8)
         \<or> (rem = 2 \<and> 320 \<le> unat w \<and> unat w < 512)
         \<or> (rem = 1 \<and> 20480 \<le> unat w \<and> unat w < 32768)"
  shows "utf16_of_utf8 le s rem w \<noteq> Inr bs"
  using assms
proof (induction s arbitrary: rem w)
  case Nil
  then show ?case by auto
next
  case (Cons c rest)
  define w' where "w' = push_bit 6 w OR ucast (c AND 0x3f)"
  have "unat w < 2 ^ 26"
    using Cons.prems by auto
  then have w': "unat w' = unat w * 64 + unat c mod 64"
    unfolding w'_def by (rule append_bits_unat)
  have pos: "rem > 0"
    using Cons.prems by auto
  show ?case
  proof (cases "c AND 0xc0 = 0x80")
    case False
    with pos show ?thesis by simp
  next
    case True
    show ?thesis
    proof (cases "rem = 1")
      case True
      with Cons.prems w' have "1114111 < unat w'" by auto
      then have "w' > Maximum_Character_Value"
        by (simp add: Maximum_Character_Value_def word_less_nat_alt)
      with \<open>rem = 1\<close> \<open>c AND 0xc0 = 0x80\<close> show ?thesis
        by (simp add: w'_def)
    next
      case False
      with Cons.prems w' have
        "(rem - 1 = 3 \<and> 5 \<le> unat w' \<and> unat w' < 8)
         \<or> (rem - 1 = 2 \<and> 320 \<le> unat w' \<and> unat w' < 512)
         \<or> (rem - 1 = 1 \<and> 20480 \<le> unat w' \<and> unat w' < 32768)"
        by auto
      then have "utf16_of_utf8 le rest (rem - 1) w' \<noteq> Inr bs"
        by (rule Cons.IH)
      with False pos \<open>c AND 0xc0 = 0x80\<close> show ?thesis
        by (simp add: w'_def)
    qed
  qed
qed

lemma F5_octet:
  "\<forall>c :: octet. c \<ge> 0xF5 \<longrightarrow>
     c AND 0xc0 \<noteq> 0x80 \<and> \<not> c \<le> 0x7f \<and> c AND 0xe0 \<noteq> 0xc0 \<and> c AND 0xf0 \<noteq> 0xe0
     \<and> (c AND 0xf8 = 0xf0 \<longrightarrow> 5 \<le> unat (ucast (c AND 0x07) :: uint32)
           \<and> unat (ucast (c AND 0x07) :: uint32) < 8)"
  by (rule octet_exhaust) code_simp

lemma F5_fails:
  "b \<in> set s \<Longrightarrow> b \<ge> 0xF5 \<Longrightarrow> utf16_of_utf8 le s rem w \<noteq> Inr bs"
proof (induction s arbitrary: rem w bs)
  case Nil
  then show ?case by simp
next
  case (Cons c rest)
  show ?case
  proof (cases "c \<ge> 0xF5")
    case True
    note f5 = F5_octet [rule_format, OF True]
    show ?thesis
    proof (cases "c AND 0xf8 = 0xf0")
      case False
      with f5 show ?thesis by simp
    next
      case True
      with f5 have "utf16_of_utf8 le rest 3 (ucast (c AND 0x07)) \<noteq> Inr bs"
        by (intro doomed_fails) simp
      with f5 True show ?thesis by auto
    qed
  next
    case False
    with Cons.prems have "b \<in> set rest" by auto
    then have IH: "utf16_of_utf8 le rest rem' w' \<noteq> Inr bs'" for rem' w' bs'
      using Cons.prems(2) by (rule Cons.IH)
    show ?thesis
      by (simp only: utf16_of_utf8.simps Let_def) (simp add: IH split: sum.split)
  qed
qed

section \<open>Capacity, invalid octets and overlong leads\<close>

lemma no_wrap_8:
  assumes "2 * n \<le> SIZE_MAX"
  shows "(n * 2) mod 2 ^ 64 = 2 * n"
proof -
  have "n * 2 < 18446744073709551616"
    using assms unfolding SIZE_MAX_eq by linarith
  also have "(18446744073709551616 :: nat) = 2 ^ 64"
    by simp
  finally have "(n * 2) mod 2 ^ 64 = n * 2"
    by (rule mod_less)
  then show ?thesis by (simp only: mult.commute)
qed

lemma ceiling_from_capacity:
  assumes "n + n div 2 \<le> SIZE_MAX"
  shows "n \<le> unat (Max_UTF16_String :: size_t)"
proof -
  have "n + n div 2 \<le> 18446744073709551615"
    using assms by (simp only: SIZE_MAX_eq)
  then have "n \<le> 12297829382473034410"
    by linarith
  then show ?thesis
    by (simp only: Max_UTF16_String_64)
qed

lemma ConvertUTF8ToUTF16_valid:
  assumes "IsUTF8Valid s" and "(length s * 2) mod 2 ^ 64 \<le> length out"
  shows "\<exists>n. fst (ConvertUTF8ToUTF16 s out le) = (True, n)"
proof (cases "s = []")
  case True
  then show ?thesis
    by (simp add: ConvertUTF8ToUTF16_def ConvertUTF8ToUTF16_body_def)
next
  case False
  with assms(1) have "IsUTF8Valid_loop s 0 0"
    by (simp add: IsUTF8Valid_def)
  then obtain bs where "utf16_of_utf8 le s 0 0 = Inr bs"
    using valid_imp_converts by blast
  then have "fst (ConvertUTF8ToUTF16_loop le s 0 0 0 out) = Inr (length bs)"
    using loop8_pure [of le s 0 0 0 out] by simp
  then have "fst (ConvertUTF8ToUTF16_body s out le) = Inr (length bs)"
    using False assms(2) by (simp add: ConvertUTF8ToUTF16_body_def del: power_numeral)
  then show ?thesis
    by (cases "ConvertUTF8ToUTF16_body s out le") (simp add: ConvertUTF8ToUTF16_def)
qed

lemma ConvertUTF16ToUTF8_paired:
  assumes "even (length inp)" and "surrogates_paired (code_units (detect_BOM inp le) inp)"
    and "length inp \<le> unat (Max_UTF16_String :: size_t)"
    and "length inp + length inp div 2 \<le> length out"
  shows "\<exists>n. fst (ConvertUTF16ToUTF8 inp out le) = (True, n)"
proof -
  obtain bs where "utf8_of_utf16 (detect_BOM inp le) inp = Inr bs"
    using utf8_of_utf16_paired [OF assms(1)] assms(2) by blast
  then have "fst (ConvertUTF16ToUTF8_loop (detect_BOM inp le) inp 0 out) = Inr (length bs)"
    using loop16_pure [of "detect_BOM inp le" inp 0 out] by simp
  moreover have "\<not> length out < (length inp + length inp div 2) mod 2 ^ 64"
    using assms(4) by (simp only: no_wrap_16 [OF assms(3)] not_less)
  ultimately have "\<exists>m. fst (ConvertUTF16ToUTF8_body inp out le) = Inr m"
    using assms(1,3) by (simp add: ConvertUTF16ToUTF8_body_def del: power_numeral)
  then obtain m where "fst (ConvertUTF16ToUTF8_body inp out le) = Inr m"
    by blast
  then show ?thesis
    by (cases "ConvertUTF16ToUTF8_body inp out le") (simp add: ConvertUTF16ToUTF8_def)
qed

text \<open>
  C8.  The boundary of the capacity test.  For a non-empty input that \<open>IsUTF8Valid\<close>
  accepts, \<open>ConvertUTF8ToUTF16\<close> succeeds with an output buffer of exactly 2 times the
  input length and returns failure with length 0 with a buffer one octet smaller.  For a
  non-empty UTF-16 input of even length whose surrogates are paired,
  \<open>ConvertUTF16ToUTF8\<close> succeeds with a buffer of exactly the input length plus half the
  input length (integer division) and returns failure with length 0 with a buffer one
  octet smaller.  The required capacity is a value of \<open>std::size_t\<close>.
\<close>

theorem buffer_size_boundary:
  "(s \<noteq> [] \<and> IsUTF8Valid s \<and> 2 * length s \<le> SIZE_MAX \<longrightarrow>
      (length out = 2 * length s
         \<longrightarrow> (\<exists>n. fst (ConvertUTF8ToUTF16 s out little_endian) = (True, n)))
      \<and> (length out + 1 = 2 * length s
         \<longrightarrow> fst (ConvertUTF8ToUTF16 s out little_endian) = (False, 0)))
   \<and> (inp \<noteq> [] \<and> even (length inp)
        \<and> surrogates_paired (code_units (detect_BOM inp little_endian) inp)
        \<and> length inp + length inp div 2 \<le> SIZE_MAX \<longrightarrow>
      (length out = length inp + length inp div 2
         \<longrightarrow> (\<exists>n. fst (ConvertUTF16ToUTF8 inp out little_endian) = (True, n)))
      \<and> (length out + 1 = length inp + length inp div 2
         \<longrightarrow> fst (ConvertUTF16ToUTF8 inp out little_endian) = (False, 0)))"
proof (intro conjI impI)
  assume a: "s \<noteq> [] \<and> IsUTF8Valid s \<and> 2 * length s \<le> SIZE_MAX"
  then have nw: "(length s * 2) mod 2 ^ 64 = 2 * length s"
    by (intro no_wrap_8) simp
  {
    assume "length out = 2 * length s"
    with a nw show "\<exists>n. fst (ConvertUTF8ToUTF16 s out little_endian) = (True, n)"
      by (intro ConvertUTF8ToUTF16_valid) simp_all
  }
  {
    assume "length out + 1 = 2 * length s"
    then have "length out < (length s * 2) mod 2 ^ 64"
      by (simp only: nw)
    with a show "fst (ConvertUTF8ToUTF16 s out little_endian) = (False, 0)"
      by (simp add: ConvertUTF8ToUTF16_def ConvertUTF8ToUTF16_body_def del: power_numeral)
  }
next
  assume a: "inp \<noteq> [] \<and> even (length inp)
        \<and> surrogates_paired (code_units (detect_BOM inp little_endian) inp)
        \<and> length inp + length inp div 2 \<le> SIZE_MAX"
  then have small: "length inp \<le> unat (Max_UTF16_String :: size_t)"
    by (intro ceiling_from_capacity) simp
  {
    assume "length out = length inp + length inp div 2"
    with a small show "\<exists>n. fst (ConvertUTF16ToUTF8 inp out little_endian) = (True, n)"
      by (intro ConvertUTF16ToUTF8_paired) simp_all
  }
  {
    assume "length out + 1 = length inp + length inp div 2"
    then have "length out < (length inp + length inp div 2) mod 2 ^ 64"
      by (simp only: no_wrap_16 [OF small])
    with a small show "fst (ConvertUTF16ToUTF8 inp out little_endian) = (False, 0)"
      by (simp add: ConvertUTF16ToUTF8_def ConvertUTF16ToUTF8_body_def del: power_numeral)
  }
qed

text \<open>
  C3, as amended.  Every input that contains the octet 0xC0 or 0xC1 is rejected by
  \<open>IsUTF8Valid\<close>, and every input that contains an octet of 0xF5 or more is rejected by
  \<open>IsUTF8Valid\<close> and by \<open>ConvertUTF8ToUTF16\<close>, whatever follows.  \<open>ConvertUTF16ToUTF8\<close>
  reads UTF-16 octets, among which 0xC0 and 0xC1 are ordinary: the counterexample is
  U+00C0 in little-endian order, which it converts.
\<close>

theorem invalid_octets_rejected:
  "((0xC0 \<in> set s \<or> 0xC1 \<in> set s) \<longrightarrow> IsUTF8Valid s = False)
   \<and> ((\<exists>b \<in> set s. b \<ge> 0xF5) \<longrightarrow>
        IsUTF8Valid s = False \<and> fst (ConvertUTF8ToUTF16 s out little_endian) = (False, 0))"
proof (intro conjI impI)
  assume "0xC0 \<in> set s \<or> 0xC1 \<in> set s"
  then obtain b where "b \<in> set s" "b = 0xc0 \<or> b = 0xc1 \<or> b \<ge> 0xF5"
    by blast
  then have "\<not> IsUTF8Valid_loop s 0 0" and "s \<noteq> []"
    using invalid_octets by auto
  then show "IsUTF8Valid s = False"
    by (simp add: IsUTF8Valid_def)
next
  assume "\<exists>b \<in> set s. b \<ge> 0xF5"
  then obtain b where b: "b \<in> set s" "b \<ge> 0xF5"
    by blast
  then have "\<not> IsUTF8Valid_loop s 0 0" and ne: "s \<noteq> []"
    using invalid_octets by auto
  then show "IsUTF8Valid s = False"
    by (simp add: IsUTF8Valid_def)
  have "utf16_of_utf8 little_endian s 0 0 \<noteq> Inr bs" for bs
    using b by (rule F5_fails)
  then obtain e where "utf16_of_utf8 little_endian s 0 0 = Inl e"
    by (cases "utf16_of_utf8 little_endian s 0 0") auto
  then have "fst (ConvertUTF8ToUTF16_loop little_endian s 0 0 0 out) = Inl e"
    using loop8_pure [of little_endian s 0 0 0 out] by simp
  then have "\<exists>e'. fst (ConvertUTF8ToUTF16_body s out little_endian) = Inl e'"
    using ne by (simp add: ConvertUTF8ToUTF16_body_def del: power_numeral)
  then obtain e' where "fst (ConvertUTF8ToUTF16_body s out little_endian) = Inl e'"
    by blast
  then show "fst (ConvertUTF8ToUTF16 s out little_endian) = (False, 0)"
    by (cases "ConvertUTF8ToUTF16_body s out little_endian") (simp add: ConvertUTF8ToUTF16_def)
qed

theorem invalid_octets_counterexample:
  "(0xC0 :: octet) \<in> set [0xC0, 0x00]
   \<and> ConvertUTF16ToUTF8 [0xC0, 0x00] [0, 0, 0] True = ((True, 2), [0xC3, 0x80, 0])"
  by (simp add: converter_defs constants_defs ConvertUTF16ToUTF8_loop.simps
      Max_UTF16_String_64)

text \<open>
  C1.  \<open>IsUTF8Valid\<close> rejects the octets C0 80, an overlong form of U+0000, at its test
  for the octets 0xC0 and 0xC1.  \<open>ConvertUTF8ToUTF16\<close> has no such test: it takes 0xC0 as
  the lead of a two-octet sequence and succeeds, storing the code unit 0x0000.
\<close>

theorem overlong_lead_accepted:
  "IsUTF8Valid [0xC0, 0x80] = False
   \<and> ConvertUTF8ToUTF16 [0xC0, 0x80] [0xFF, 0xFF, 0xFF, 0xFF] True
       = ((True, 2), [0x00, 0x00, 0xFF, 0xFF])
   \<and> ConvertUTF8ToUTF16 [0xC0, 0x80] [0xFF, 0xFF, 0xFF, 0xFF] False
       = ((True, 2), [0x00, 0x00, 0xFF, 0xFF])"
  by (simp add: converter_defs constants_defs)

theorem buffer_size_boundary_witness:
  "[0x41 :: octet] \<noteq> [] \<and> IsUTF8Valid [0x41] \<and> 2 * length [0x41 :: octet] \<le> SIZE_MAX
   \<and> length [0, 0 :: octet] = 2 * length [0x41 :: octet]
   \<and> (\<exists>n. fst (ConvertUTF8ToUTF16 [0x41] [0, 0] True) = (True, n))
   \<and> length [0 :: octet] + 1 = 2 * length [0x41 :: octet]
   \<and> fst (ConvertUTF8ToUTF16 [0x41] [0] True) = (False, 0)
   \<and> [0x41, 0x00 :: octet] \<noteq> [] \<and> even (length [0x41, 0x00 :: octet])
   \<and> surrogates_paired (code_units (detect_BOM [0x41, 0x00] True) [0x41, 0x00])
   \<and> length [0x41, 0x00 :: octet] + length [0x41, 0x00 :: octet] div 2 \<le> SIZE_MAX
   \<and> length [0, 0, 0 :: octet] = length [0x41, 0x00 :: octet] + length [0x41, 0x00 :: octet] div 2
   \<and> (\<exists>n. fst (ConvertUTF16ToUTF8 [0x41, 0x00] [0, 0, 0] True) = (True, n))
   \<and> length [0, 0 :: octet] + 1 = length [0x41, 0x00 :: octet] + length [0x41, 0x00 :: octet] div 2
   \<and> fst (ConvertUTF16ToUTF8 [0x41, 0x00] [0, 0] True) = (False, 0)"
proof -
  have h8: "[0x41 :: octet] \<noteq> [] \<and> IsUTF8Valid [0x41]
              \<and> 2 * length [0x41 :: octet] \<le> SIZE_MAX"
    by (simp add: IsUTF8Valid_def SIZE_MAX_eq)
  have h16: "[0x41, 0x00 :: octet] \<noteq> [] \<and> even (length [0x41, 0x00 :: octet])
       \<and> surrogates_paired (code_units (detect_BOM [0x41, 0x00] True) [0x41, 0x00])
       \<and> length [0x41, 0x00 :: octet] + length [0x41, 0x00 :: octet] div 2 \<le> SIZE_MAX"
    by (simp add: converter_defs is_high_surrogate_def is_low_surrogate_def SIZE_MAX_eq)
  have e1: "length [0, 0 :: octet] = 2 * length [0x41 :: octet]"
    and e2: "length [0 :: octet] + 1 = 2 * length [0x41 :: octet]"
    and e3: "length [0, 0, 0 :: octet]
              = length [0x41, 0x00 :: octet] + length [0x41, 0x00 :: octet] div 2"
    and e4: "length [0, 0 :: octet] + 1
              = length [0x41, 0x00 :: octet] + length [0x41, 0x00 :: octet] div 2"
    by simp_all
  note b = buffer_size_boundary [of "[0x41]" _ True "[0x41, 0x00]"]
  show ?thesis
    using h8 h16 e1 e2 e3 e4 b [of "[0, 0]"] b [of "[0]"] b [of "[0, 0, 0]"]
    by blast
qed

theorem invalid_octets_rejected_witness:
  "((0xC0 :: octet) \<in> set [0xC0, 0x80] \<or> (0xC1 :: octet) \<in> set [0xC0, 0x80])
   \<and> IsUTF8Valid [0xC0, 0x80] = False
   \<and> (\<exists>b \<in> set [0xF5, 0x80, 0x80, 0x80 :: octet]. b \<ge> 0xF5)
   \<and> IsUTF8Valid [0xF5, 0x80, 0x80, 0x80] = False
   \<and> fst (ConvertUTF8ToUTF16 [0xF5, 0x80, 0x80, 0x80] [0, 0, 0, 0, 0, 0, 0, 0] True)
       = (False, 0)"
proof -
  have h1: "(0xC0 :: octet) \<in> set [0xC0, 0x80] \<or> (0xC1 :: octet) \<in> set [0xC0, 0x80]"
    by simp
  have h2: "\<exists>b \<in> set [0xF5, 0x80, 0x80, 0x80 :: octet]. b \<ge> 0xF5"
    by simp
  show ?thesis
    using h1 h2 invalid_octets_rejected [of "[0xC0, 0x80]"]
      invalid_octets_rejected [of "[0xF5, 0x80, 0x80, 0x80]" "[0, 0, 0, 0, 0, 0, 0, 0]" True]
    by blast
qed

end
